theory Spec2Isabelle
  imports Main "HOL-Library.Word"
begin

unbundle bit_operations_syntax

section \<open>The atomic bit vector of kmlib (kmbitvector.h)\<close>

text \<open>
  The class template is instantiated as the file's last line does:
  \<^verbatim>\<open>using AtomicBitVector = kmlib::AtomicBitVector<uint64_t>\<close>. Words are 64-bit
  unsigned integers, and \<^verbatim>\<open>size_type\<close> is \<^verbatim>\<open>std::size_t\<close> of an LP64 platform:
  a 64-bit unsigned integer whose arithmetic wraps around.
\<close>

type_synonym word_type = "64 word"
type_synonym size_type = "64 word"

text \<open>
  The two private members. (An Isabelle name cannot end with an underscore, so
  \<^verbatim>\<open>size_\<close> and \<^verbatim>\<open>data_array_\<close> carry the suffix m.)
\<close>

record AtomicBitVector =
  size_m :: size_type
  data_array_m :: "word_type list"

definition kBitsPerByte :: size_type where
  "kBitsPerByte = 8"

text \<open>\<^verbatim>\<open>sizeof(word_type) * kBitsPerByte\<close> with \<^verbatim>\<open>sizeof(uint64_t) = 8\<close>; every use of
  the constant is in an expression of type \<^verbatim>\<open>size_type\<close>.\<close>

definition kBitsPerWord :: size_type where
  "kBitsPerWord = 8 * kBitsPerByte"

subsection \<open>The atomic cell\<close>

text \<open>
  The operations of \<^verbatim>\<open>std::atomic<word_type>\<close> that the class uses, each one indivisible
  step on the cell's value. \<open>fetch_or\<close> and \<open>fetch_and\<close> give the stored value first and
  the returned (previous) value second. \<open>compare_exchange_weak\<close> gives the success flag,
  the cell and the updated \<^verbatim>\<open>expected\<close>; its last argument says whether this attempt
  fails spuriously, which the weak form may do even when the cell holds the expected
  value.
\<close>

definition load :: "word_type \<Rightarrow> word_type" where
  "load cell = cell"

definition fetch_or :: "word_type \<Rightarrow> word_type \<Rightarrow> word_type \<times> word_type" where
  "fetch_or cell m = (cell OR m, cell)"

definition fetch_and :: "word_type \<Rightarrow> word_type \<Rightarrow> word_type \<times> word_type" where
  "fetch_and cell m = (cell AND m, cell)"

definition compare_exchange_weak ::
  "word_type \<Rightarrow> word_type \<Rightarrow> word_type \<Rightarrow> bool \<Rightarrow> bool \<times> word_type \<times> word_type" where
  "compare_exchange_weak cell expected desired spurious =
     (if cell = expected \<and> \<not> spurious then (True, desired, expected)
      else (False, cell, cell))"

subsection \<open>Constructors\<close>

text \<open>\<^verbatim>\<open>explicit AtomicBitVector(size_type size = 0)\<close>: the word count is computed in
  \<^verbatim>\<open>size_type\<close>, so \<^verbatim>\<open>size + kBitsPerWord - 1\<close> wraps; the words are value-initialised.\<close>

definition AtomicBitVector_size :: "size_type \<Rightarrow> AtomicBitVector" where
  "AtomicBitVector_size sz =
     \<lparr>size_m = sz,
      data_array_m = replicate (unat ((sz + kBitsPerWord - 1) div kBitsPerWord)) 0\<rparr>"

text \<open>\<^verbatim>\<open>AtomicBitVector(WordIterator first, WordIterator last)\<close>: the range is given as the
  list of its words. The product \<^verbatim>\<open>(last - first) * kBitsPerWord\<close> is converted to
  \<^verbatim>\<open>size_type\<close>; the model takes it modulo \<open>2 ^ 64\<close>.\<close>

definition AtomicBitVector_words :: "word_type list \<Rightarrow> AtomicBitVector" where
  "AtomicBitVector_words ws =
     \<lparr>size_m = word_of_nat (length ws) * kBitsPerWord, data_array_m = ws\<rparr>"

text \<open>The move constructor gives the new object and what is left of \<^verbatim>\<open>rhs\<close>: its
  \<^verbatim>\<open>size_\<close> is only read, and a moved-from \<^verbatim>\<open>std::vector\<close> is empty.\<close>

definition AtomicBitVector_move :: "AtomicBitVector \<Rightarrow> AtomicBitVector \<times> AtomicBitVector" where
  "AtomicBitVector_move rhs =
     (\<lparr>size_m = size_m rhs, data_array_m = data_array_m rhs\<rparr>,
      rhs\<lparr>data_array_m := []\<rparr>)"

text \<open>\<^verbatim>\<open>operator=(AtomicBitVector &&rhs)\<close>, on two distinct objects: the assigned object
  and what is left of \<^verbatim>\<open>rhs\<close>.\<close>

definition move_assign :: "AtomicBitVector \<Rightarrow> AtomicBitVector \<Rightarrow> AtomicBitVector \<times> AtomicBitVector" where
  "move_assign lhs rhs =
     (lhs\<lparr>size_m := size_m rhs, data_array_m := data_array_m rhs\<rparr>,
      rhs\<lparr>data_array_m := []\<rparr>)"

subsection \<open>Queries and mutators\<close>

definition size_bv :: "AtomicBitVector \<Rightarrow> size_type" where
  "size_bv v = size_m v"

text \<open>
  \<^verbatim>\<open>data_array_[k]\<close> is an unchecked access: with \<open>k\<close> not below the number of words the
  behaviour is undefined, which the model returns as \<open>None\<close>.
\<close>

definition set_bv :: "AtomicBitVector \<Rightarrow> size_type \<Rightarrow> AtomicBitVector option" where
  "set_bv v i =
     (let mask = push_bit (unat (i mod kBitsPerWord)) (1 :: word_type);
          k = unat (i div kBitsPerWord)
      in if k < length (data_array_m v)
         then Some (v\<lparr>data_array_m := (data_array_m v)[k := fst (fetch_or (data_array_m v ! k) mask)]\<rparr>)
         else None)"

definition unset :: "AtomicBitVector \<Rightarrow> size_type \<Rightarrow> AtomicBitVector option" where
  "unset v i =
     (let mask = NOT (push_bit (unat (i mod kBitsPerWord)) (1 :: word_type));
          k = unat (i div kBitsPerWord)
      in if k < length (data_array_m v)
         then Some (v\<lparr>data_array_m := (data_array_m v)[k := fst (fetch_and (data_array_m v ! k) mask)]\<rparr>)
         else None)"

definition at :: "AtomicBitVector \<Rightarrow> size_type \<Rightarrow> bool option" where
  "at v i =
     (let k = unat (i div kBitsPerWord)
      in if k < length (data_array_m v)
         then Some ((load (data_array_m v ! k) AND push_bit (unat (i mod kBitsPerWord)) 1) \<noteq> 0)
         else None)"

subsection \<open>The bit lock\<close>

text \<open>
  The loop of \<^verbatim>\<open>try_lock\<close> on one cell, for the bit at offset \<open>k\<close>. The schedule lists,
  attempt by attempt, whether the \<^verbatim>\<open>compare_exchange_weak\<close> fails spuriously; attempts
  after the end of the schedule do not. The result is the returned flag and the cell.
\<close>

function try_lock_loop :: "word_type \<Rightarrow> word_type \<Rightarrow> nat \<Rightarrow> bool list \<Rightarrow> bool \<times> word_type" where
  "try_lock_loop cell old_value k sched =
     (if (drop_bit k old_value AND 1) \<noteq> 0 then (False, cell)
      else
        (case compare_exchange_weak cell old_value (old_value OR push_bit k 1)
                (case sched of [] \<Rightarrow> False | s # _ \<Rightarrow> s) of
           (ok, cell', old_value') \<Rightarrow>
             if ok then (True, cell') else try_lock_loop cell' old_value' k (tl sched)))"
  by pat_completeness auto
termination
  by (relation "measure (\<lambda>(cell, old_value, k, sched).
        2 * length sched + (if cell = old_value then 0 else 1))")
     (auto simp: compare_exchange_weak_def split: if_splits list.splits)

declare try_lock_loop.simps [simp del]

definition try_lock :: "AtomicBitVector \<Rightarrow> size_type \<Rightarrow> bool list \<Rightarrow> (bool \<times> AtomicBitVector) option" where
  "try_lock v i sched =
     (let p = unat (i div kBitsPerWord)
      in if p < length (data_array_m v)
         then (case try_lock_loop (data_array_m v ! p) (load (data_array_m v ! p))
                      (unat (i mod kBitsPerWord)) sched of
                 (r, cell') \<Rightarrow> Some (r, v\<lparr>data_array_m := (data_array_m v)[p := cell']\<rparr>))
         else None)"

definition unlock :: "AtomicBitVector \<Rightarrow> size_type \<Rightarrow> AtomicBitVector option" where
  "unlock v i = unset v i"

subsection \<open>Bulk operations\<close>

definition reset :: "AtomicBitVector \<Rightarrow> size_type \<Rightarrow> AtomicBitVector" where
  "reset v sz =
     (let v1 = v\<lparr>data_array_m := replicate 0 0\<rparr>;
          v2 = v1\<lparr>size_m := sz\<rparr>
      in v2\<lparr>data_array_m := replicate (unat ((sz + kBitsPerWord - 1) div kBitsPerWord)) 0\<rparr>)"

text \<open>\<^verbatim>\<open>swap\<close> on the pair of the object and \<^verbatim>\<open>rhs\<close>.\<close>

definition swap :: "AtomicBitVector \<times> AtomicBitVector \<Rightarrow> AtomicBitVector \<times> AtomicBitVector" where
  "swap p =
     (case p of (a, b) \<Rightarrow>
        (a\<lparr>size_m := size_m b, data_array_m := data_array_m b\<rparr>,
         b\<lparr>size_m := size_m a, data_array_m := data_array_m a\<rparr>))"

subsection \<open>The representation invariant\<close>

text \<open>
  The vector stores one word for every started group of \<open>kBitsPerWord\<close> bits below its
  size. The operations on single bits are stated for vectors in this state.
\<close>

definition valid :: "AtomicBitVector \<Rightarrow> bool" where
  "valid v \<longleftrightarrow> length (data_array_m v) = (unat (size_m v) + 63) div 64"

section \<open>Basic facts\<close>

lemma kBitsPerWord_eq: "kBitsPerWord = 64"
  by (simp add: kBitsPerWord_def kBitsPerByte_def)

lemma word_index_eq: "unat (i div kBitsPerWord) = unat i div 64"
  by (simp add: kBitsPerWord_eq unat_div)

lemma bit_offset_eq: "unat (i mod kBitsPerWord) = unat i mod 64"
  by (simp add: kBitsPerWord_eq unat_mod)

lemma in_range_word_index:
  assumes "valid v" and "i < size_m v"
  shows "unat i div 64 < length (data_array_m v)"
proof -
  from assms(2) have "unat i < unat (size_m v)"
    by (simp add: word_less_nat_alt)
  then have "unat i div 64 < (unat (size_m v) + 63) div 64"
    by arith
  with assms(1) show ?thesis
    by (simp add: valid_def)
qed

lemma at_eq:
  "at v i = (if unat i div 64 < length (data_array_m v)
             then Some (bit (data_array_m v ! (unat i div 64)) (unat i mod 64)) else None)"
  by (simp add: at_def load_def word_index_eq bit_offset_eq bit_iff_and_push_bit_not_eq_0)

lemma set_bv_eq:
  "set_bv v i = (if unat i div 64 < length (data_array_m v)
     then Some (v\<lparr>data_array_m := (data_array_m v)[unat i div 64 :=
            (data_array_m v ! (unat i div 64)) OR push_bit (unat i mod 64) 1]\<rparr>) else None)"
  by (simp add: set_bv_def fetch_or_def word_index_eq bit_offset_eq Let_def)

lemma unset_eq:
  "unset v i = (if unat i div 64 < length (data_array_m v)
     then Some (v\<lparr>data_array_m := (data_array_m v)[unat i div 64 :=
            (data_array_m v ! (unat i div 64)) AND NOT (push_bit (unat i mod 64) 1)]\<rparr>) else None)"
  by (simp add: unset_def fetch_and_def word_index_eq bit_offset_eq Let_def)

text \<open>A bit index is determined by its word index and its offset.\<close>

lemma index_split_inj:
  "unat (i :: size_type) div 64 = unat j div 64 \<Longrightarrow> unat i mod 64 = unat j mod 64 \<Longrightarrow> i = j"
proof -
  assume a: "unat i div 64 = unat j div 64" "unat i mod 64 = unat j mod 64"
  have "unat i = unat j"
    using a by (metis div_mult_mod_eq)
  then show "i = j" by (rule unsigned_word_eqI)
qed

lemma bit_set_word:
  "k < 64 \<Longrightarrow> bit ((w :: word_type) OR 2 ^ k) m \<longleftrightarrow> bit w m \<or> m = k"
  by (auto simp add: bit_or_iff bit_exp_iff possible_bit_word)

lemma bit_clear_word:
  "bit ((w :: word_type) AND NOT (2 ^ k)) m \<longleftrightarrow> bit w m \<and> m \<noteq> k"
  by (auto simp add: bit_and_iff bit_not_iff bit_exp_iff possible_bit_word dest: bit_imp_le_length)

text \<open>
  Without interference the cell always holds the value last observed, so the loop ends
  after the spurious failures: it reports whether the bit was clear and leaves it set.
\<close>

lemma try_lock_loop_eq:
  "try_lock_loop cell cell k sched = (\<not> bit cell k, cell OR push_bit k 1)"
proof (induction sched)
  case Nil
  have "bit cell k \<Longrightarrow> cell OR push_bit k 1 = cell"
    by (rule bit_word_eqI) (auto simp add: bit_or_iff bit_exp_iff)
  then show ?case
    by (subst try_lock_loop.simps)
       (simp add: compare_exchange_weak_def bit_iff_and_drop_bit_eq_1 and_one_eq)
next
  case (Cons s sched)
  have "bit cell k \<Longrightarrow> cell OR push_bit k 1 = cell"
    by (rule bit_word_eqI) (auto simp add: bit_or_iff bit_exp_iff)
  with Cons show ?case
    by (subst try_lock_loop.simps)
       (simp add: compare_exchange_weak_def bit_iff_and_drop_bit_eq_1 and_one_eq)
qed

lemma try_lock_eq:
  "try_lock v i sched = (if unat i div 64 < length (data_array_m v)
     then Some (\<not> bit (data_array_m v ! (unat i div 64)) (unat i mod 64),
            v\<lparr>data_array_m := (data_array_m v)[unat i div 64 :=
               (data_array_m v ! (unat i div 64)) OR push_bit (unat i mod 64) 1]\<rparr>)
     else None)"
  by (simp add: try_lock_def load_def try_lock_loop_eq word_index_eq bit_offset_eq Let_def)

text \<open>What a later read sees after each of the three writes.\<close>

lemma set_bv_at:
  assumes "set_bv v i = Some v'"
  shows "at v' j = (if j = i then Some True else at v j)"
proof -
  let ?d = "data_array_m v"
  from assms have ib: "unat i div 64 < length ?d"
    and v': "v' = v\<lparr>data_array_m := ?d[unat i div 64 := (?d ! (unat i div 64)) OR push_bit (unat i mod 64) 1]\<rparr>"
    by (auto simp: set_bv_eq split: if_splits)
  show ?thesis
  proof (cases "unat j div 64 = unat i div 64")
    case True
    then have "j = i \<longleftrightarrow> unat j mod 64 = unat i mod 64"
      using index_split_inj by blast
    with True ib show ?thesis
      by (auto simp: at_eq v' bit_set_word)
  next
    case False
    then have "j \<noteq> i" by auto
    with False show ?thesis
      by (simp add: at_eq v')
  qed
qed

lemma unset_at:
  assumes "unset v i = Some v'"
  shows "at v' j = (if j = i then Some False else at v j)"
proof -
  let ?d = "data_array_m v"
  from assms have ib: "unat i div 64 < length ?d"
    and v': "v' = v\<lparr>data_array_m := ?d[unat i div 64 := (?d ! (unat i div 64)) AND NOT (push_bit (unat i mod 64) 1)]\<rparr>"
    by (auto simp: unset_eq split: if_splits)
  show ?thesis
  proof (cases "unat j div 64 = unat i div 64")
    case True
    then have "j = i \<longleftrightarrow> unat j mod 64 = unat i mod 64"
      using index_split_inj by blast
    with True ib show ?thesis
      by (auto simp: at_eq v' bit_clear_word)
  next
    case False
    then have "j \<noteq> i" by auto
    with False show ?thesis
      by (simp add: at_eq v')
  qed
qed

lemma try_lock_at:
  assumes "try_lock v i sched = Some (r, v')"
  shows "at v' j = (if j = i then Some True else at v j)"
proof -
  from assms have "set_bv v i = Some v'"
    by (auto simp: try_lock_eq set_bv_eq split: if_splits)
  then show ?thesis by (rule set_bv_at)
qed

lemma try_lock_flag:
  assumes "try_lock v i sched = Some (r, v')"
  shows "r \<longleftrightarrow> at v i = Some False"
  using assms by (auto simp: try_lock_eq at_eq split: if_splits)

text \<open>A vector of 130 bits, in three words, serves as the concrete instance below.\<close>

lemma valid_size_130: "valid (AtomicBitVector_size 130)"
  by (simp add: valid_def AtomicBitVector_size_def kBitsPerWord_eq)

lemma size_bv_size_130: "size_bv (AtomicBitVector_size 130) = 130"
  by (simp add: size_bv_def AtomicBitVector_size_def)

section \<open>Single bits of a vector that stores its words\<close>

text \<open>
  In a vector that satisfies \<open>valid\<close>, every index below the size addresses a stored
  word. There \<open>try_lock\<close> returns, whatever the number of spurious failures of the weak
  compare-and-exchange: its flag is true exactly when the bit read as 0 before, and the
  bit reads as 1 afterwards.
\<close>

lemma try_lock_valid:
  assumes "valid v" and "i < size_bv v"
  shows "\<exists>r v'. try_lock v i sched = Some (r, v') \<and>
           (r \<longleftrightarrow> at v i = Some False) \<and>
           (r \<longrightarrow> at v' i = Some True) \<and>
           (at v i = Some True \<longrightarrow> \<not> r)"
proof -
  from assms have "unat i div 64 < length (data_array_m v)"
    by (simp add: in_range_word_index size_bv_def)
  then obtain r v' where tl: "try_lock v i sched = Some (r, v')"
    by (simp add: try_lock_eq)
  have "r \<longleftrightarrow> at v i = Some False"
    using tl by (rule try_lock_flag)
  moreover have "at v' i = Some True"
    using try_lock_at [OF tl, of i] by simp
  ultimately show ?thesis
    using tl by auto
qed

text \<open>There a write to bit \<open>i\<close> leaves every other bit as it was, in the same word or
  not.\<close>

lemma bit_independence_valid:
  assumes "valid v" and "i < size_bv v" and "j < size_bv v" and "j \<noteq> i"
  shows "(\<exists>v'. set_bv v i = Some v' \<and> at v' j = at v j) \<and>
         (\<exists>v'. unset v i = Some v' \<and> at v' j = at v j) \<and>
         (\<exists>r v'. try_lock v i sched = Some (r, v') \<and> at v' j = at v j)"
proof -
  from assms(1,2) have ib: "unat i div 64 < length (data_array_m v)"
    by (simp add: in_range_word_index size_bv_def)
  from ib obtain v1 where s: "set_bv v i = Some v1"
    by (simp add: set_bv_eq)
  from ib obtain v2 where u: "unset v i = Some v2"
    by (simp add: unset_eq)
  from ib obtain r v3 where t: "try_lock v i sched = Some (r, v3)"
    by (simp add: try_lock_eq)
  from assms(4) have "at v1 j = at v j"
    by (simp add: set_bv_at [OF s])
  moreover from assms(4) have "at v2 j = at v j"
    by (simp add: unset_at [OF u])
  moreover from assms(4) have "at v3 j = at v j"
    by (simp add: try_lock_at [OF t])
  ultimately show ?thesis
    using s u t by simp
qed

text \<open>There \<open>at\<close> returns true after \<open>set\<close> and false after a following \<open>unset\<close>.\<close>

lemma set_unset_at_valid:
  assumes "valid v" and "i < size_bv v"
  shows "(\<exists>v1 v2. set_bv v i = Some v1 \<and> at v1 i = Some True \<and>
            unset v1 i = Some v2 \<and> at v2 i = Some False) \<and>
         (\<forall>w k. unlock w k = unset w k)"
proof -
  from assms have ib: "unat i div 64 < length (data_array_m v)"
    by (simp add: in_range_word_index size_bv_def)
  then obtain v1 where s: "set_bv v i = Some v1"
    by (simp add: set_bv_eq)
  from s ib have "unat i div 64 < length (data_array_m v1)"
    by (auto simp: set_bv_eq)
  then obtain v2 where u: "unset v1 i = Some v2"
    by (simp add: unset_eq)
  have "at v1 i = Some True"
    by (simp add: set_bv_at [OF s])
  moreover have "at v2 i = Some False"
    by (simp add: unset_at [OF u])
  ultimately show ?thesis
    using s u by (simp add: unlock_def)
qed

section \<open>In-range indices of a moved-from vector\<close>





section \<open>Idempotence\<close>

text \<open>
  Claim C6. For every vector and every index, \<open>set\<close> twice in a row is \<open>set\<close> once: the
  second call returns the state that the first one left, size and words alike, and the
  two agree also where the access leaves the array. The same holds for \<open>unset\<close>.
\<close>

theorem set_unset_idempotent:
  "Option.bind (set_bv v i) (\<lambda>w. set_bv w i) = set_bv v i \<and>
   Option.bind (unset v i) (\<lambda>w. unset w i) = unset v i"
proof -
  let ?k = "unat i div 64"
  let ?d = "data_array_m v"
  have "(?d ! ?k OR 2 ^ (unat i mod 64)) OR 2 ^ (unat i mod 64) = ?d ! ?k OR 2 ^ (unat i mod 64)"
    by (simp add: or.assoc)
  moreover have "(?d ! ?k AND NOT (2 ^ (unat i mod 64))) AND NOT (2 ^ (unat i mod 64))
      = ?d ! ?k AND NOT (2 ^ (unat i mod 64))"
    by (simp add: and.assoc)
  ultimately show ?thesis
    by (simp add: set_bv_eq unset_eq)
qed

section \<open>Construction, reset, move and swap\<close>

text \<open>
  As long as \<open>size + kBitsPerWord - 1\<close> does not wrap, that is for sizes up to
  \<open>2 ^ 64 - 64\<close>, the size constructor and \<open>reset\<close> store one zero word for every
  started group of 64 bits.
\<close>

lemma word_count_in_range:
  assumes "unat (n :: size_type) \<le> 2 ^ 64 - 64"
  shows "unat ((n + kBitsPerWord - 1) div kBitsPerWord) = (unat n + 63) div 64"
proof -
  have "n + kBitsPerWord - 1 = n + 63"
    by (simp add: kBitsPerWord_eq)
  moreover from assms have "unat n + unat (63 :: size_type) < 2 ^ LENGTH(64)"
    by simp
  then have "unat (n + 63) = unat n + 63"
    by (simp add: unat_add_lem [THEN iffD1])
  ultimately show ?thesis
    by (simp only: kBitsPerWord_eq unat_div) simp
qed

lemma in_range_ceil: "(i :: size_type) < n \<Longrightarrow> unat i div 64 < (unat n + 63) div 64"
  by (simp add: word_less_nat_alt)

lemma at_zero_words:
  "at \<lparr>size_m = n, data_array_m = replicate c 0\<rparr> i = (if unat i div 64 < c then Some False else None)"
  by (simp add: at_eq)

lemma size_constructor_in_range:
  assumes "unat n \<le> 2 ^ 64 - 64"
  shows "size_bv (AtomicBitVector_size n) = n"
    and "length (data_array_m (AtomicBitVector_size n)) = (unat n + 63) div 64"
    and "valid (AtomicBitVector_size n)"
    and "i < n \<Longrightarrow> at (AtomicBitVector_size n) i = Some False"
proof -
  show "size_bv (AtomicBitVector_size n) = n"
    by (simp add: size_bv_def AtomicBitVector_size_def)
  show l: "length (data_array_m (AtomicBitVector_size n)) = (unat n + 63) div 64"
    by (simp add: AtomicBitVector_size_def word_count_in_range [OF assms])
  then show v: "valid (AtomicBitVector_size n)"
    by (simp add: valid_def AtomicBitVector_size_def)
  show "at (AtomicBitVector_size n) i = Some False" if "i < n"
  proof -
    from that have "i < size_m (AtomicBitVector_size n)"
      by (simp add: AtomicBitVector_size_def)
    with v have "unat i div 64 < length (data_array_m (AtomicBitVector_size n))"
      by (rule in_range_word_index)
    then show ?thesis
      by (simp add: at_eq AtomicBitVector_size_def)
  qed
qed

lemma reset_in_range:
  assumes "unat n \<le> 2 ^ 64 - 64"
  shows "size_bv (reset v n) = n"
    and "valid (reset v n)"
    and "i < n \<Longrightarrow> at (reset v n) i = Some False"
  using in_range_ceil [of i n]
  by (simp_all add: reset_def size_bv_def valid_def at_eq word_count_in_range [OF assms])

text \<open>
  The scenario of a 130-bit vector: after setting bits 0, 63, 64 and 129, exactly these
  four read as true; after \<open>reset\<close> to 10 bits the size is 10 and every bit is false.
\<close>

lemma set_bv_valid:
  assumes "valid v" and "i < size_bv v"
  shows "\<exists>v'. set_bv v i = Some v' \<and> valid v' \<and> size_bv v' = size_bv v"
proof -
  from assms have "unat i div 64 < length (data_array_m v)"
    by (simp add: in_range_word_index size_bv_def)
  with assms(1) show ?thesis
    by (simp add: set_bv_eq valid_def size_bv_def)
qed

lemma scenario_130:
  "\<exists>v1 v2 v3 v4.
     set_bv (AtomicBitVector_size 130) 0 = Some v1 \<and> set_bv v1 63 = Some v2 \<and>
     set_bv v2 64 = Some v3 \<and> set_bv v3 129 = Some v4 \<and>
     size_bv v4 = 130 \<and>
     (\<forall>i<130. at v4 i = Some (i \<in> {0, 63, 64, 129})) \<and>
     size_bv (reset v4 10) = 10 \<and>
     (\<forall>i<10. at (reset v4 10) i = Some False)"
proof -
  let ?v0 = "AtomicBitVector_size 130"
  obtain v1 where 1: "set_bv ?v0 0 = Some v1" "valid v1" "size_bv v1 = 130"
    using set_bv_valid [OF valid_size_130, of 0] by (auto simp: size_bv_size_130)
  obtain v2 where 2: "set_bv v1 63 = Some v2" "valid v2" "size_bv v2 = 130"
    using set_bv_valid [OF 1(2), of 63] by (auto simp: 1(3))
  obtain v3 where 3: "set_bv v2 64 = Some v3" "valid v3" "size_bv v3 = 130"
    using set_bv_valid [OF 2(2), of 64] by (auto simp: 2(3))
  obtain v4 where 4: "set_bv v3 129 = Some v4" "valid v4" "size_bv v4 = 130"
    using set_bv_valid [OF 3(2), of 129] by (auto simp: 3(3))
  have small: "unat (130 :: size_type) \<le> 2 ^ 64 - 64" "unat (10 :: size_type) \<le> 2 ^ 64 - 64"
    by simp_all
  have "at v4 i = Some (i \<in> {0, 63, 64, 129})" if "i < 130" for i
    using size_constructor_in_range(4) [OF small(1) that]
    by (simp add: set_bv_at [OF 4(1)] set_bv_at [OF 3(1)] set_bv_at [OF 2(1)] set_bv_at [OF 1(1)])
  moreover have "size_bv (reset v4 10) = 10"
    by (rule reset_in_range(1) [OF small(2)])
  moreover have "at (reset v4 10) i = Some False" if "i < 10" for i
    using that by (rule reset_in_range(3) [OF small(2)])
  ultimately show ?thesis
    using 1(1) 2(1) 3(1) 4(1) 4(3) by blast
qed

text \<open>
  Claim C4 asks for \<open>\<lceil>n / 64\<rceil>\<close> words and for false bits at every size \<open>n\<close>. At
  \<open>n = 2 ^ 64 - 1\<close> the sum \<open>n + kBitsPerWord - 1\<close> wraps to 62: the constructor stores no
  word where \<open>2 ^ 58\<close> are needed, and reading bit 0 leaves the array.
\<close>

theorem size_constructor_wraps:
  "size_bv (AtomicBitVector_size 18446744073709551615) = 18446744073709551615 \<and>
   data_array_m (AtomicBitVector_size 18446744073709551615) = [] \<and>
   (unat (18446744073709551615 :: size_type) + 63) div 64 = 288230376151711744 \<and>
   at (AtomicBitVector_size 18446744073709551615) 0 = None"
  by (simp add: size_bv_def AtomicBitVector_size_def kBitsPerWord_eq at_eq)

text \<open>
  Claim C7 asks the same of \<open>reset\<close> at every size. \<open>reset\<close> computes the word count by
  the same expression: at \<open>2 ^ 64 - 1\<close> it leaves that size with no word, and reading
  bit 0 leaves the array.
\<close>

theorem reset_wraps:
  "size_bv (reset (AtomicBitVector_size 130) 18446744073709551615) = 18446744073709551615 \<and>
   data_array_m (reset (AtomicBitVector_size 130) 18446744073709551615) = [] \<and>
   at (reset (AtomicBitVector_size 130) 18446744073709551615) 0 = None"
  by (simp add: size_bv_def reset_def kBitsPerWord_eq at_eq)

text \<open>
  Claim C10 asks that an in-range index always addresses a stored word. In the vector
  constructed with size \<open>2 ^ 64 - 1\<close>, index 0 is in range and no word is stored: each of
  \<open>set\<close>, \<open>unset\<close>, \<open>at\<close> and \<open>try_lock\<close> leaves the array. (For vectors that satisfy
  \<open>valid\<close> the access is in bounds: \<open>in_range_word_index\<close>.)
\<close>

theorem in_range_out_of_bounds:
  "0 < size_bv (AtomicBitVector_size 18446744073709551615) \<and>
   length (data_array_m (AtomicBitVector_size 18446744073709551615)) \<le> unat ((0 :: size_type) div kBitsPerWord) \<and>
   set_bv (AtomicBitVector_size 18446744073709551615) 0 = None \<and>
   unset (AtomicBitVector_size 18446744073709551615) 0 = None \<and>
   at (AtomicBitVector_size 18446744073709551615) 0 = None \<and>
   try_lock (AtomicBitVector_size 18446744073709551615) 0 [] = None"
  by (simp add: size_bv_def AtomicBitVector_size_def kBitsPerWord_eq at_eq set_bv_eq unset_eq try_lock_eq)

text \<open>Both moves give the target the size and the bits of the source and take the
  source's words.\<close>

lemma move_target:
  "size_bv (fst (AtomicBitVector_move a)) = size_bv a"
  "at (fst (AtomicBitVector_move a)) i = at a i"
  "size_bv (fst (move_assign b a)) = size_bv a"
  "at (fst (move_assign b a)) i = at a i"
  "data_array_m (snd (AtomicBitVector_move a)) = []"
  "data_array_m (snd (move_assign b a)) = []"
  by (simp_all add: AtomicBitVector_move_def move_assign_def size_bv_def at_eq)

text \<open>
  Claim C3 asks that the source of a move is left with size 0. Both moves only read
  \<^verbatim>\<open>rhs.size_\<close>: a moved-from vector of 130 bits still reports 130 bits, with no word
  behind them.
\<close>

theorem move_source_keeps_size:
  "size_bv (snd (AtomicBitVector_move (AtomicBitVector_size 130))) = 130 \<and>
   data_array_m (snd (AtomicBitVector_move (AtomicBitVector_size 130))) = [] \<and>
   size_bv (snd (move_assign (AtomicBitVector_size 0) (AtomicBitVector_size 130))) = 130 \<and>
   data_array_m (snd (move_assign (AtomicBitVector_size 0) (AtomicBitVector_size 130))) = [] \<and>
   at (snd (AtomicBitVector_move (AtomicBitVector_size 130))) 0 = None"
  by (simp add: AtomicBitVector_move_def move_assign_def size_bv_def AtomicBitVector_size_def at_eq)

text \<open>The size of a vector built from a list of words, as a natural number.\<close>

lemma unat_words_size: "unat (word_of_nat n * 64 :: size_type) = (n mod 2 ^ 64 * 64) mod 2 ^ 64"
  by (simp add: unat_word_ariths unat_of_nat)

lemma unat_words_size_le: "unat (word_of_nat n * 64 :: size_type) \<le> n * 64"
proof -
  have "(n mod 2 ^ 64 * 64) mod 2 ^ 64 \<le> n mod 2 ^ 64 * 64"
    by (rule mod_less_eq_dividend)
  also have "\<dots> \<le> n * 64"
    by simp
  finally show ?thesis
    by (simp only: unat_words_size)
qed

text \<open>
  Claim C8. The vector constructed from a sequence of \<open>w\<close> words has size
  \<open>w * kBitsPerWord\<close> (in \<^verbatim>\<open>size_type\<close>, and as a natural number whenever the product in
  \<^verbatim>\<open>(last - first) * kBitsPerWord\<close> does not overflow), and \<open>at\<close> returns for every index
  \<open>i\<close> below the size bit \<open>i mod 64\<close> of word \<open>i div 64\<close> of the sequence.
\<close>

theorem words_constructor:
  "size_bv (AtomicBitVector_words ws) = word_of_nat (length ws) * kBitsPerWord \<and>
   (length ws < 2 ^ 57 \<longrightarrow> unat (size_bv (AtomicBitVector_words ws)) = length ws * 64) \<and>
   (\<forall>i. i < size_bv (AtomicBitVector_words ws) \<longrightarrow>
        at (AtomicBitVector_words ws) i = Some (bit (ws ! (unat i div 64)) (unat i mod 64)))"
proof -
  have a: "size_bv (AtomicBitVector_words ws) = word_of_nat (length ws) * kBitsPerWord"
    by (simp add: size_bv_def AtomicBitVector_words_def)
  have b: "unat (size_bv (AtomicBitVector_words ws)) = length ws * 64" if "length ws < 2 ^ 57"
  proof -
    from that have "length ws mod 2 ^ 64 = length ws" and "length ws * 64 < 2 ^ 64"
      by simp_all
    then have "(length ws mod 2 ^ 64 * 64) mod 2 ^ 64 = length ws * 64"
      by simp
    then show ?thesis
      by (simp only: a kBitsPerWord_eq unat_words_size)
  qed
  have c: "at (AtomicBitVector_words ws) i = Some (bit (ws ! (unat i div 64)) (unat i mod 64))"
    if "i < size_bv (AtomicBitVector_words ws)" for i
  proof -
    from that have "unat i < unat (word_of_nat (length ws) * 64 :: size_type)"
      by (simp add: a kBitsPerWord_eq word_less_nat_alt)
    also have "\<dots> \<le> length ws * 64"
      by (rule unat_words_size_le)
    finally have "unat i div 64 < length ws"
      by arith
    then show ?thesis
      by (simp add: at_eq AtomicBitVector_words_def)
  qed
  from a b c show ?thesis by blast
qed

theorem words_constructor_witness:
  "size_bv (AtomicBitVector_words [5, 0, 9223372036854775808]) = 192 \<and>
   unat (size_bv (AtomicBitVector_words [5, 0, 9223372036854775808])) = 3 * 64 \<and>
   (191 :: size_type) < size_bv (AtomicBitVector_words [5, 0, 9223372036854775808]) \<and>
   at (AtomicBitVector_words [5, 0, 9223372036854775808]) 191 = Some True \<and>
   at (AtomicBitVector_words [5, 0, 9223372036854775808]) 2 = Some True \<and>
   at (AtomicBitVector_words [5, 0, 9223372036854775808]) 1 = Some False"
proof -
  let ?ws = "[5, 0, 9223372036854775808] :: word_type list"
  have s: "size_bv (AtomicBitVector_words ?ws) = 192"
    by (simp add: size_bv_def AtomicBitVector_words_def kBitsPerWord_eq)
  have l: "length ?ws < 2 ^ 57" by simp
  have i: "(191 :: size_type) < size_bv (AtomicBitVector_words ?ws)"
    and j: "(2 :: size_type) < size_bv (AtomicBitVector_words ?ws)"
    and k: "(1 :: size_type) < size_bv (AtomicBitVector_words ?ws)"
    by (simp_all add: s)
  have b191: "bit (9223372036854775808 :: word_type) 63"
    by (simp add: bit_iff_odd drop_bit_eq_div [symmetric])
  from words_constructor [of ?ws] l i j k s b191 show ?thesis
    by (simp add: bit_numeral_simps)
qed

text \<open>
  Claim C9. After \<open>swap\<close> each of the two vectors has the size and every bit of the
  other.
\<close>

theorem swap_exchanges:
  "size_bv (fst (swap (a, b))) = size_bv b \<and> (\<forall>i. at (fst (swap (a, b))) i = at b i) \<and>
   size_bv (snd (swap (a, b))) = size_bv a \<and> (\<forall>i. at (snd (swap (a, b))) i = at a i)"
  by (simp add: swap_def size_bv_def at_eq)

end
